theory Spec2Isabelle
  imports Main "HOL-Library.Word" "HOL-Library.Sublist"
begin

unbundle bit_operations_syntax

section \<open>JavaScript values used by the PIX module\<close>

text \<open>
  A JavaScript string is a sequence of 16-bit UTF-16 code units; \<open>length\<close> counts code
  units and \<open>charCodeAt\<close> returns one of them. The bitwise operators of JavaScript
  work on 32-bit integers.
\<close>

type_synonym jschar = "16 word"
type_synonym jsstring = "jschar list"
type_synonym int32 = "32 word"

text \<open>An ASCII string literal of the source, as code units.\<close>

definition js :: "string \<Rightarrow> jsstring" where
  "js s = map (\<lambda>c. of_nat (of_char c)) s"

text \<open>The digit \<open>d\<close> of \<open>Number.prototype.toString\<close>: \<open>0..9\<close>, then \<open>a..z\<close>.\<close>

definition digit_char :: "nat \<Rightarrow> jschar" where
  "digit_char d = (if d < 10 then of_nat (48 + d) else of_nat (87 + d))"

text \<open>\<open>String(n)\<close> for a non-negative integer \<open>n\<close>: its decimal digits.\<close>

fun String_js :: "nat \<Rightarrow> jsstring" where
  "String_js n = (if n < 10 then [digit_char n] else String_js (n div 10) @ [digit_char (n mod 10)])"

text \<open>\<open>n.toString(16)\<close> for a non-negative integer \<open>n\<close>: lowercase hexadecimal digits.\<close>

fun toString16 :: "nat \<Rightarrow> jsstring" where
  "toString16 n = (if n < 16 then [digit_char n] else toString16 (n div 16) @ [digit_char (n mod 16)])"

text \<open>
  \<open>toUpperCase\<close> on the code units \<open>a..z\<close>; every other ASCII code unit is unchanged. The
  source applies it to the output of \<open>toString(16)\<close> only, which is ASCII.
\<close>

definition toUpperCase :: "jsstring \<Rightarrow> jsstring" where
  "toUpperCase s = map (\<lambda>c. if 97 \<le> c \<and> c \<le> 122 then c - 32 else c) s"

text \<open>\<open>s.padStart(n, fill)\<close> with a one-character \<open>fill\<close>.\<close>

definition padStart :: "nat \<Rightarrow> jschar \<Rightarrow> jsstring \<Rightarrow> jsstring" where
  "padStart n fill s = replicate (n - length s) fill @ s"

text \<open>
  \<open>s.substring(start, end)\<close> for non-negative arguments: both are clamped to the length,
  and swapped when \<open>start > end\<close>. \<open>s.substring(start)\<close> runs to the end.
\<close>

definition substring :: "nat \<Rightarrow> nat \<Rightarrow> jsstring \<Rightarrow> jsstring" where
  "substring start end s =
     (let a = min start (length s); b = min end (length s)
      in take (max a b - min a b) (drop (min a b) s))"

definition substring_from :: "nat \<Rightarrow> jsstring \<Rightarrow> jsstring" where
  "substring_from start s = substring start (length s) s"

section \<open>The checksum\<close>

text \<open>
  The inner loop of \<open>calculateCRC16\<close>, \<open>j\<close> iterations of it: the register is a 32-bit
  integer and is not masked between the steps.
\<close>

fun crc_bits :: "nat \<Rightarrow> int32 \<Rightarrow> int32" where
  "crc_bits 0 crc = crc"
| "crc_bits (Suc j) crc =
     crc_bits j (if crc AND 0x8000 \<noteq> 0 then push_bit 1 crc XOR 0x1021 else push_bit 1 crc)"

text \<open>The outer loop, over the code units of \<open>data\<close>.\<close>

fun crc_chars :: "jsstring \<Rightarrow> int32 \<Rightarrow> int32" where
  "crc_chars [] crc = crc"
| "crc_chars (c # cs) crc = crc_chars cs (crc_bits 8 (crc XOR push_bit 8 (ucast c)))"

definition calculateCRC16 :: "jsstring \<Rightarrow> nat" where
  "calculateCRC16 data = unat (crc_chars data 0xFFFF AND 0xFFFF)"

section \<open>Validation\<close>

text \<open>
  The body of \<open>validatePixCode\<close> has no operation that throws on a string, so the
  \<open>catch\<close> branch is never taken and the function is a total predicate.
\<close>

definition validatePixCode :: "jsstring \<Rightarrow> bool" where
  "validatePixCode pixCode =
     (if length pixCode < 10 then False
      else
        let payload = substring 0 (length pixCode - 4) pixCode;
            providedCrc = substring_from (length pixCode - 4) pixCode;
            calculatedCrc = calculateCRC16 payload;
            calculatedCrcHex = padStart 4 (digit_char 0) (toUpperCase (toString16 calculatedCrc))
        in providedCrc = calculatedCrcHex)"

section \<open>Composition\<close>

text \<open>\<open>Buffer.toString('hex')\<close>: two lowercase hexadecimal digits for each byte.\<close>

definition hex_of_bytes :: "8 word list \<Rightarrow> jsstring" where
  "hex_of_bytes bs = concat (map (\<lambda>b. [digit_char (unat b div 16), digit_char (unat b mod 16)]) bs)"

text \<open>
  \<open>generatePixCode\<close>. What the function reads from outside is a parameter: \<open>numToString\<close> is
  \<open>Number.prototype.toString\<close>, \<open>PIX_KEY\<close> the environment variable (\<open>None\<close> when unset),
  \<open>rnd\<close> the bytes that \<open>randomBytes(16)\<close> returns. An amount is a string (\<open>Inl\<close>) or a
  number (\<open>Inr\<close>). The description is not used by the source.
\<close>

definition generatePixCode ::
  "('num \<Rightarrow> jsstring) \<Rightarrow> jsstring option \<Rightarrow> 8 word list \<Rightarrow> jsstring + 'num \<Rightarrow> jsstring \<Rightarrow> jsstring" where
  "generatePixCode numToString PIX_KEY rnd amount description =
     (let amountStr = (case amount of Inl s \<Rightarrow> s | Inr n \<Rightarrow> numToString n);
          pixKey = (case PIX_KEY of None \<Rightarrow> js ''contato@deltasilkprint.com.br''
                    | Some k \<Rightarrow> if k = [] then js ''contato@deltasilkprint.com.br'' else k);
          merchantName = js ''DELTA SILK PRINT'';
          merchantCity = js ''SAO PAULO'';
          txId = substring 0 25 (hex_of_bytes rnd);
          payload = concat [
            js ''00'', js ''02'', js ''01'', js ''12'',
            js ''26'', padStart 2 (digit_char 0) (String_js (length pixKey + 19)),
            js ''0014'', js ''br.gov.bcb.pix'',
            js ''01'', padStart 2 (digit_char 0) (String_js (length pixKey)), pixKey,
            js ''52'', js ''0000'',
            js ''53'', js ''986'',
            js ''54'', padStart 2 (digit_char 0) (String_js (length amountStr)), amountStr,
            js ''58'', js ''02'', js ''BR'',
            js ''59'', padStart 2 (digit_char 0) (String_js (length merchantName)), merchantName,
            js ''60'', padStart 2 (digit_char 0) (String_js (length merchantCity)), merchantCity,
            js ''62'', padStart 2 (digit_char 0) (String_js (length txId + 4)),
            js ''05'', padStart 2 (digit_char 0) (String_js (length txId)), txId,
            js ''63'', js ''04''];
          crc = calculateCRC16 payload;
          finalPayload = payload @ padStart 4 (digit_char 0) (toUpperCase (toString16 crc))
      in finalPayload)"


section \<open>The rendered-output cache\<close>

text \<open>
  A JavaScript \<open>Map\<close> keeps its entries in insertion order, one entry for each key:
  \<open>set\<close> on a key that is present replaces the value where the entry stands, \<open>set\<close> on a
  new key appends, and \<open>keys().next().value\<close> is the key of the first entry
  (\<open>undefined\<close>, here \<open>None\<close>, when the map is empty).
\<close>

type_synonym js_map = "(jsstring \<times> jsstring) list"

definition map_get :: "js_map \<Rightarrow> jsstring \<Rightarrow> jsstring option" where
  "map_get m k = map_of m k"

definition map_size :: "js_map \<Rightarrow> nat" where
  "map_size m = length m"

definition map_first_key :: "js_map \<Rightarrow> jsstring option" where
  "map_first_key m = (case m of [] \<Rightarrow> None | e # _ \<Rightarrow> Some (fst e))"

definition map_delete :: "js_map \<Rightarrow> jsstring option \<Rightarrow> js_map" where
  "map_delete m key = (case key of None \<Rightarrow> m | Some k \<Rightarrow> filter (\<lambda>e. fst e \<noteq> k) m)"

definition map_set :: "js_map \<Rightarrow> jsstring \<Rightarrow> jsstring \<Rightarrow> js_map" where
  "map_set m k v =
     (if map_of m k = None then m @ [(k, v)]
      else map (\<lambda>e. if fst e = k then (k, v) else e) m)"

datatype js_error = Error jsstring

text \<open>
  The module state is the cache; the rendering collaborator \<open>QRCode.toDataURL\<close> is a
  parameter that acts on a state \<open>world\<close> of its own and either resolves to a data URL
  (\<open>Inr\<close>) or rejects (\<open>Inl\<close>).
\<close>

record 'w qr_state =
  qrCodeCache :: js_map
  world :: 'w

type_synonym 'w renderer = "jsstring \<Rightarrow> 'w \<Rightarrow> (js_error + jsstring) \<times> 'w"

text \<open>
  \<open>generatePixQRCode\<close>: \<open>has\<close> and \<open>get\<close> are one lookup; every error of the \<open>try\<close>
  block is replaced by \<open>Error("Failed to generate QR code")\<close> in the \<open>catch\<close> block, whose
  log line is left out.
\<close>

definition generatePixQRCode ::
  "'w renderer \<Rightarrow> jsstring \<Rightarrow> 'w qr_state \<Rightarrow> (js_error + jsstring) \<times> 'w qr_state" where
  "generatePixQRCode toDataURL pixCode s =
     (case map_get (qrCodeCache s) pixCode of
        Some cached \<Rightarrow> (Inr cached, s)
      | None \<Rightarrow>
          (case toDataURL pixCode (world s) of
             (Inl e, w') \<Rightarrow> (Inl (Error (js ''Failed to generate QR code'')), s\<lparr>world := w'\<rparr>)
           | (Inr qrCodeDataURL, w') \<Rightarrow>
               let c1 = (if map_size (qrCodeCache s) \<ge> 100
                         then map_delete (qrCodeCache s) (map_first_key (qrCodeCache s))
                         else qrCodeCache s);
                   c2 = map_set c1 pixCode qrCodeDataURL
               in (Inr qrCodeDataURL, \<lparr>qrCodeCache = c2, world = w'\<rparr>)))"

text \<open>Calls of \<open>generatePixQRCode\<close> one after the other, keeping the last state.\<close>

fun render_all :: "'w renderer \<Rightarrow> jsstring list \<Rightarrow> 'w qr_state \<Rightarrow> 'w qr_state" where
  "render_all toDataURL [] s = s"
| "render_all toDataURL (k # ks) s = render_all toDataURL ks (snd (generatePixQRCode toDataURL k s))"

section \<open>The checksum of the specification\<close>

text \<open>
  CRC-16/CCITT-FALSE as the specification words it: a 16-bit register, so that every step
  is masked to 16 bits by the type; the register starts at \<open>0xFFFF\<close>; each character is cut
  to 8 bits and XORed into the high byte; then 8 times, most significant bit first, the
  register is shifted left, and XORed with \<open>0x1021\<close> when its top bit was set.
\<close>

definition ref_shift :: "16 word \<Rightarrow> 16 word" where
  "ref_shift r = (if bit r 15 then push_bit 1 r XOR 0x1021 else push_bit 1 r)"

fun ref_bits :: "nat \<Rightarrow> 16 word \<Rightarrow> 16 word" where
  "ref_bits 0 r = r"
| "ref_bits (Suc j) r = ref_bits j (ref_shift r)"

definition ref_byte :: "16 word \<Rightarrow> 8 word \<Rightarrow> 16 word" where
  "ref_byte r b = ref_bits 8 (r XOR push_bit 8 (ucast b))"

fun ref_chars :: "jsstring \<Rightarrow> 16 word \<Rightarrow> 16 word" where
  "ref_chars [] r = r"
| "ref_chars (c # cs) r = ref_chars cs (ref_byte r (ucast c))"

definition crc16_ccitt_false :: "jsstring \<Rightarrow> nat" where
  "crc16_ccitt_false data = unat (ref_chars data 0xFFFF)"

section \<open>Notions used to state the properties\<close>

text \<open>The uppercase hexadecimal digit of \<open>d\<close>.\<close>

definition upper_digit :: "nat \<Rightarrow> jschar" where
  "upper_digit d = (if d < 10 then of_nat (48 + d) else of_nat (55 + d))"

text \<open>The four uppercase hexadecimal digits of a number below \<open>0x10000\<close>.\<close>

definition upper_hex4 :: "nat \<Rightarrow> jsstring" where
  "upper_hex4 n = [upper_digit (n div 4096), upper_digit (n div 256 mod 16),
     upper_digit (n div 16 mod 16), upper_digit (n mod 16)]"

declare String_js.simps [simp del] toString16.simps [simp del]

section \<open>The 32-bit register and the 16-bit register\<close>

lemma top_bit_test: "(crc AND 0x8000 \<noteq> 0) = bit crc 15" for crc :: int32
proof -
  have "(0x8000 :: int32) = 2 ^ 15" by simp
  then show ?thesis by (simp only: and_exp_eq_0_iff_not_bit) simp
qed

lemma low16_shift:
  "(ucast (if crc AND 0x8000 \<noteq> 0 then push_bit 1 crc XOR 0x1021 else push_bit 1 crc :: int32) :: 16 word)
     = ref_shift (ucast crc)"
proof -
  have p: "(ucast (0x1021 :: int32) :: 16 word) = 0x1021" by simp
  have s: "(ucast (push_bit n crc) :: 16 word) = push_bit n (ucast crc)" for n
    by (rule bit_word_eqI) (auto simp add: bit_simps)
  have x: "(ucast (push_bit 1 crc XOR 0x1021) :: 16 word) = push_bit 1 (ucast crc) XOR 0x1021"
    by (simp only: unsigned_xor_eq s p)
  have b: "bit (ucast crc :: 16 word) 15 = bit crc 15"
    by (simp add: bit_simps)
  show ?thesis
    by (simp only: ref_shift_def top_bit_test x s b if_distrib [of ucast])
qed

lemma low16_bits: "(ucast (crc_bits j crc) :: 16 word) = ref_bits j (ucast crc)"
proof (induction j arbitrary: crc)
  case 0
  show ?case by simp
next
  case (Suc j)
  show ?case
    by (simp only: crc_bits.simps ref_bits.simps Suc.IH low16_shift)
qed

lemma low16_xor_char:
  "(ucast (crc XOR push_bit 8 (ucast c :: int32)) :: 16 word)
     = ucast crc XOR push_bit 8 (ucast (ucast c :: 8 word))" for c :: jschar
  by (rule bit_word_eqI) (auto simp add: bit_simps)

lemma low16_chars: "(ucast (crc_chars cs crc) :: 16 word) = ref_chars cs (ucast crc)"
proof (induction cs arbitrary: crc)
  case Nil
  show ?case by simp
next
  case (Cons c cs)
  show ?case
    by (simp only: crc_chars.simps ref_chars.simps Cons.IH low16_bits low16_xor_char ref_byte_def)
qed

lemma unat_mask16: "unat (w AND 0xFFFF) = unat (ucast w :: 16 word)" for w :: int32
proof -
  have m: "(0xFFFF :: int32) = mask 16" by (simp add: mask_eq_exp_minus_1)
  have "unat (w AND mask 16) = unat (take_bit 16 w)" by (simp only: take_bit_eq_mask)
  also have "\<dots> = take_bit 16 (unat w)" by (simp only: unsigned_take_bit_eq)
  also have "\<dots> = unat (ucast w :: 16 word)" by (simp add: unsigned_ucast_eq)
  finally show ?thesis by (simp only: m)
qed

lemma calculateCRC16_low16: "calculateCRC16 data = unat (ref_chars data 0xFFFF)"
  by (simp add: calculateCRC16_def unat_mask16 low16_chars)

lemma calculateCRC16_bound: "calculateCRC16 data < 65536"
  using unsigned_less [of "ref_chars data 0xFFFF", where ?'a = nat]
  by (simp add: calculateCRC16_low16)

lemma ref_shift_inj: "ref_shift r = ref_shift r' \<Longrightarrow> r = r'"
proof -
  assume e: "ref_shift r = ref_shift r'"
  have z: "\<not> bit (push_bit n x) 0" if "0 < n" for x :: "16 word" and n
    using that by (simp add: bit_push_bit_iff)
  have b0: "bit (ref_shift x) 0 = bit x 15" for x
    using z [of 1 x] by (simp only: ref_shift_def bit_xor_iff split: if_splits) simp
  have t: "bit r 15 = bit r' 15" using e b0 by metis
  have c: "a = b" if "a XOR k = b XOR k" for a b k :: "16 word"
  proof -
    have "a = (a XOR k) XOR k" by (simp add: xor.assoc)
    also have "\<dots> = (b XOR k) XOR k" by (simp only: that)
    also have "\<dots> = b" by (simp add: xor.assoc)
    finally show ?thesis .
  qed
  have sh: "push_bit 1 r = push_bit 1 r'"
  proof (cases "bit r 15")
    case True
    then have "push_bit 1 r XOR 0x1021 = push_bit 1 r' XOR 0x1021"
      using e t by (simp only: ref_shift_def if_True)
    then show ?thesis by (rule c)
  next
    case False
    then show ?thesis using e t by (simp only: ref_shift_def if_False)
  qed
  show "r = r'"
  proof (rule bit_word_eqI)
    fix n assume n: "n < LENGTH(16)"
    show "bit r n = bit r' n"
    proof (cases "n = 15")
      case True then show ?thesis using t by simp
    next
      case False
      then have "Suc n < 16" using n by simp
      moreover have "bit (push_bit 1 r) (Suc n) = bit (push_bit 1 r') (Suc n)" using sh by (simp only:)
      moreover have "bit (push_bit m y) (Suc n) = bit y (Suc n - m)" if "Suc n < 16" "m \<le> Suc n" for y :: "16 word" and m
        using that by (simp add: bit_push_bit_iff)
      ultimately show ?thesis by (simp del: push_bit_Suc)
    qed
  qed
qed


section \<open>Rendering numbers\<close>

lemma unat_of_nat16: "n < 65536 \<Longrightarrow> unat (of_nat n :: jschar) = n"
  by (simp add: unat_of_nat)

lemma hex_decomp:
  "n = 4096 * (n div 4096) + 256 * (n div 256 mod 16) + 16 * (n div 16 mod 16) + n mod 16" for n :: nat
proof -
  have a: "n = 16 * (n div 16) + n mod 16" by simp
  have b: "n div 16 = 16 * (n div 256) + n div 16 mod 16"
    using mult_div_mod_eq [of 16 "n div 16"] by (simp add: div_mult2_eq [symmetric])
  have c: "n div 256 = 16 * (n div 4096) + n div 256 mod 16"
    using mult_div_mod_eq [of 16 "n div 256"] by (simp add: div_mult2_eq [symmetric])
  from a b c show ?thesis by linarith
qed

lemma toUpperCase_digit:
  assumes "d < 16"
  shows "toUpperCase [digit_char d] = [upper_digit d]"
proof (cases "d < 10")
  case True
  then have "unat (of_nat (48 + d) :: jschar) = 48 + d"
    by (intro unat_of_nat16) simp
  then have "\<not> (97 \<le> (of_nat (48 + d) :: jschar))"
    using True by (simp only: word_le_nat_alt) simp
  then show ?thesis using True
    by (simp add: toUpperCase_def digit_char_def upper_digit_def)
next
  case False
  then have u: "unat (of_nat (87 + d) :: jschar) = 87 + d"
    using assms by (intro unat_of_nat16) simp
  have "97 \<le> (of_nat (87 + d) :: jschar) \<and> (of_nat (87 + d) :: jschar) \<le> 122"
    using False assms by (simp only: word_le_nat_alt u) simp
  moreover have "(of_nat (87 + d) :: jschar) - 32 = of_nat (55 + d)"
    by simp
  ultimately show ?thesis using False
    by (simp add: toUpperCase_def digit_char_def upper_digit_def)
qed

lemma toUpperCase_Cons_digit:
  "d < 16 \<Longrightarrow> toUpperCase (digit_char d # cs) = upper_digit d # toUpperCase cs"
  using toUpperCase_digit [of d] by (simp add: toUpperCase_def)

lemma toUpperCase_Nil: "toUpperCase [] = []"
  by (simp add: toUpperCase_def)


lemma toString16_1: "n < 16 \<Longrightarrow> toString16 n = [digit_char n]"
  by (subst toString16.simps) simp

lemma toString16_step: "16 \<le> n \<Longrightarrow> toString16 n = toString16 (n div 16) @ [digit_char (n mod 16)]"
  by (subst toString16.simps) simp

lemma upper_digit_0: "digit_char 0 = upper_digit 0"
  by (simp add: digit_char_def upper_digit_def)

lemma replicate_small:
  "replicate 3 x = [x, x, x]" "replicate 2 x = [x, x]"
  by (simp_all add: numeral_3_eq_3 numeral_2_eq_2)

lemma hex4_digits:
  assumes "n < 65536"
  shows "padStart 4 (digit_char 0) (toUpperCase (toString16 n)) =
    upper_hex4 n"
proof -
  consider "n < 16" | "16 \<le> n" "n < 256" | "256 \<le> n" "n < 4096" | "4096 \<le> n"
    by linarith
  then show ?thesis
  proof cases
    case 1
    then show ?thesis
      by (simp add: toString16_1 toUpperCase_digit padStart_def upper_digit_0 replicate_small upper_hex4_def)
  next
    case 2
    then have "n div 16 < 16" by simp
    then show ?thesis using 2
      by (simp add: toString16_step toString16_1 toUpperCase_Cons_digit toUpperCase_Nil
          padStart_def upper_digit_0 replicate_small upper_hex4_def)
  next
    case 3
    then have a: "n div 16 div 16 < 16" "16 \<le> n div 16" by simp_all
    have b: "n div 16 div 16 = n div 256" by (simp add: div_mult2_eq [symmetric])
    show ?thesis using 3 a
      by (simp add: toString16_step [of n] toString16_step [of "n div 16"] toString16_1
          toUpperCase_Cons_digit toUpperCase_Nil padStart_def upper_digit_0 b upper_hex4_def)
  next
    case 4
    then have a: "n div 16 div 16 div 16 < 16" "16 \<le> n div 16" "16 \<le> n div 16 div 16"
      using assms by simp_all
    have b: "n div 16 div 16 = n div 256" "n div 16 div 16 div 16 = n div 4096"
      "n div 256 div 16 = n div 4096"
      by (simp_all add: div_mult2_eq [symmetric])
    show ?thesis using 4 a
      by (simp add: toString16_step [of n] toString16_step [of "n div 16"]
          toString16_step [of "n div 256"] toString16_1
          toUpperCase_Cons_digit toUpperCase_Nil padStart_def b upper_hex4_def)
  qed
qed

lemma hex4_length:
  "n < 65536 \<Longrightarrow> length (padStart 4 (digit_char 0) (toUpperCase (toString16 n))) = 4"
  by (simp add: hex4_digits upper_hex4_def)

lemma upper_digit_inj:
  assumes "a < 16" "b < 16" "upper_digit a = upper_digit b"
  shows "a = b"
proof -
  have u: "unat (upper_digit d) = (if d < 10 then 48 + d else 55 + d)" if "d < 16" for d
    using that unat_of_nat16 [of "48 + d"] unat_of_nat16 [of "55 + d"]
    by (simp only: upper_digit_def split: if_splits) simp
  have "unat (upper_digit a) = unat (upper_digit b)" using assms(3) by simp
  then show ?thesis using assms(1,2) by (simp add: u split: if_splits)
qed

lemma hex4_inj:
  assumes "a < 65536" "b < 65536"
    and "padStart 4 (digit_char 0) (toUpperCase (toString16 a)) =
         padStart 4 (digit_char 0) (toUpperCase (toString16 b))"
  shows "a = b"
proof -
  have d: "upper_digit (a div 4096) = upper_digit (b div 4096)"
    "upper_digit (a div 256 mod 16) = upper_digit (b div 256 mod 16)"
    "upper_digit (a div 16 mod 16) = upper_digit (b div 16 mod 16)"
    "upper_digit (a mod 16) = upper_digit (b mod 16)"
    using assms by (simp_all add: hex4_digits upper_hex4_def)
  have "a div 4096 = b div 4096" using d(1) assms(1,2) by (intro upper_digit_inj) simp_all
  moreover have "a div 256 mod 16 = b div 256 mod 16" using d(2) by (intro upper_digit_inj) simp_all
  moreover have "a div 16 mod 16 = b div 16 mod 16" using d(3) by (intro upper_digit_inj) simp_all
  moreover have "a mod 16 = b mod 16" using d(4) by (intro upper_digit_inj) simp_all
  ultimately show ?thesis using hex_decomp [of a] hex_decomp [of b] by simp
qed


section \<open>Validation and composition\<close>

lemma substring_take: "n \<le> length s \<Longrightarrow> substring 0 n s = take n s"
  by (simp add: substring_def Let_def)

lemma substring_from_drop: "n \<le> length s \<Longrightarrow> substring_from n s = drop n s"
  by (simp add: substring_from_def substring_def Let_def)

lemma validatePixCode_iff:
  "validatePixCode c \<longleftrightarrow>
     10 \<le> length c \<and>
     drop (length c - 4) c = upper_hex4 (calculateCRC16 (take (length c - 4) c))"
  by (simp add: validatePixCode_def Let_def substring_take substring_from_drop
      hex4_digits calculateCRC16_bound)

lemma upper_hex4_length: "length (upper_hex4 n) = 4"
  by (simp add: upper_hex4_def)

lemma validate_append_crc:
  assumes "6 \<le> length p"
  shows "validatePixCode (p @ padStart 4 (digit_char 0) (toUpperCase (toString16 (calculateCRC16 p))))"
  using assms
  by (simp add: validatePixCode_iff hex4_digits calculateCRC16_bound upper_hex4_length)

lemma generatePixCode_shape:
  "\<exists>p. generatePixCode numToString PIX_KEY rnd amount description =
         p @ padStart 4 (digit_char 0) (toUpperCase (toString16 (calculateCRC16 p))) \<and>
       6 \<le> length p"
  unfolding generatePixCode_def Let_def
  by (intro exI conjI, rule refl) (simp add: js_def)

lemma crc_bits_8:
  "crc_bits 8 c =
     crc_bits 1 (crc_bits 1 (crc_bits 1 (crc_bits 1 (crc_bits 1 (crc_bits 1 (crc_bits 1 (crc_bits 1 c)))))))"
  by (simp add: eval_nat_numeral)

section \<open>The checksum tells single characters apart\<close>

lemma ref_bits_inj: "ref_bits j r = ref_bits j r' \<Longrightarrow> r = r'"
proof (induction j arbitrary: r r')
  case 0
  then show ?case by simp
next
  case (Suc j)
  from Suc.prems have "ref_bits j (ref_shift r) = ref_bits j (ref_shift r')" by simp
  then have "ref_shift r = ref_shift r'" by (rule Suc.IH)
  then show ?case by (rule ref_shift_inj)
qed

lemma xor_right_cancel16: "a XOR k = b XOR k \<Longrightarrow> a = b" for a b k :: "16 word"
proof -
  assume e: "a XOR k = b XOR k"
  have "a = (a XOR k) XOR k" by (simp add: xor.assoc)
  also have "\<dots> = (b XOR k) XOR k" by (simp only: e)
  also have "\<dots> = b" by (simp add: xor.assoc)
  finally show ?thesis .
qed

lemma xor_left_cancel16: "k XOR a = k XOR b \<Longrightarrow> a = b" for a b k :: "16 word"
  using xor_right_cancel16 [of a k b] by (simp add: xor.commute)

lemma high_byte_inj:
  fixes b b' :: "8 word"
  assumes "push_bit 8 (ucast b :: 16 word) = push_bit 8 (ucast b')"
  shows "b = b'"
proof (rule bit_word_eqI)
  fix n assume n: "n < LENGTH(8)"
  have "bit (push_bit 8 (ucast b :: 16 word)) (n + 8) = bit (push_bit 8 (ucast b' :: 16 word)) (n + 8)"
    by (simp only: assms)
  then show "bit b n = bit b' n" using n
    by (simp add: bit_simps)
qed

lemma ref_byte_inj_state: "ref_byte r b = ref_byte r' b \<Longrightarrow> r = r'"
  unfolding ref_byte_def by (drule ref_bits_inj) (rule xor_right_cancel16)

lemma ref_byte_inj_byte: "ref_byte r b = ref_byte r b' \<Longrightarrow> b = b'"
  unfolding ref_byte_def by (drule ref_bits_inj, drule xor_left_cancel16) (rule high_byte_inj)

lemma ref_chars_inj: "ref_chars cs r = ref_chars cs r' \<Longrightarrow> r = r'"
proof (induction cs arbitrary: r r')
  case Nil
  then show ?case by simp
next
  case (Cons c cs)
  from Cons.prems have "ref_byte r (ucast c) = ref_byte r' (ucast c)"
    by (simp add: Cons.IH)
  then show ?case by (rule ref_byte_inj_state)
qed

lemma ref_chars_append: "ref_chars (a @ b) r = ref_chars b (ref_chars a r)"
  by (induction a arbitrary: r) simp_all

lemma ref_chars_update:
  assumes "i < length p" and "(ucast c :: 8 word) \<noteq> ucast (p ! i)"
  shows "ref_chars (p[i := c]) r \<noteq> ref_chars p r"
proof
  assume e: "ref_chars (p[i := c]) r = ref_chars p r"
  have p: "p = take i p @ (p ! i) # drop (Suc i) p"
    using assms(1) by (simp add: id_take_nth_drop [symmetric])
  have q: "p[i := c] = take i p @ c # drop (Suc i) p"
    using assms(1) by (simp add: upd_conv_take_nth_drop)
  let ?s = "ref_chars (take i p) r"
  have "ref_chars (take i p @ c # drop (Suc i) p) r = ref_chars (take i p @ (p ! i) # drop (Suc i) p) r"
    using e p q by simp
  then have "ref_chars (drop (Suc i) p) (ref_byte ?s (ucast c))
           = ref_chars (drop (Suc i) p) (ref_byte ?s (ucast (p ! i)))"
    by (simp add: ref_chars_append)
  then have "ref_byte ?s (ucast c) = ref_byte ?s (ucast (p ! i))"
    by (rule ref_chars_inj)
  then have "(ucast c :: 8 word) = ucast (p ! i)"
    by (rule ref_byte_inj_byte)
  with assms(2) show False by simp
qed

lemma calculateCRC16_update:
  assumes "i < length p" and "(ucast c :: 8 word) \<noteq> ucast (p ! i)"
  shows "calculateCRC16 (p[i := c]) \<noteq> calculateCRC16 p"
  using ref_chars_update [OF assms, of "0xFFFF"]
  by (simp add: calculateCRC16_low16 word_unat_eq_iff)

lemma crc_AAAAAA: "calculateCRC16 (js ''AAAAAA'') = 0xCE34"
  by (simp add: calculateCRC16_def js_def crc_bits_8)

lemma crc_LAAAAA: "calculateCRC16 (0x141 # js ''AAAAA'') = 0xCE34"
  by (simp add: calculateCRC16_def js_def crc_bits_8)

lemma hex_CE34: "upper_hex4 0xCE34 = js ''CE34''"
  by (simp add: upper_hex4_def upper_digit_def js_def)

lemma generatePixCode_valid:
  "validatePixCode (generatePixCode numToString PIX_KEY rnd amount description)"
proof -
  obtain p where
    "generatePixCode numToString PIX_KEY rnd amount description =
       p @ padStart 4 (digit_char 0) (toUpperCase (toString16 (calculateCRC16 p)))"
    and "6 \<le> length p"
    using generatePixCode_shape by blast
  then show ?thesis by (simp only: validate_append_crc)
qed

lemma generatePixCode_header:
  "\<exists>q. generatePixCode numToString PIX_KEY rnd amount description =
         (q @ js ''6304'') @
         padStart 4 (digit_char 0) (toUpperCase (toString16 (calculateCRC16 (q @ js ''6304''))))"
proof -
  have h: "js ''63'' @ js ''04'' = js ''6304''" by (simp add: js_def)
  have c: "concat [x1, x2, x3, x4, x5, x6, x7, x8, x9, x10, x11, x12, x13, x14, x15, x16, x17, x18,
      x19, x20, x21, x22, x23, x24, x25, x26, x27, x28, x29, x30, x31, x32, js ''63'', js ''04'']
    = concat [x1, x2, x3, x4, x5, x6, x7, x8, x9, x10, x11, x12, x13, x14, x15, x16, x17, x18,
      x19, x20, x21, x22, x23, x24, x25, x26, x27, x28, x29, x30, x31, x32] @ js ''6304''"
    for x1 x2 x3 x4 x5 x6 x7 x8 x9 x10 x11 x12 x13 x14 x15 x16 x17 x18
      x19 x20 x21 x22 x23 x24 x25 x26 x27 x28 x29 x30 x31 x32 :: jsstring
    by (simp add: h)
  show ?thesis
    unfolding generatePixCode_def Let_def c by (rule exI) (rule refl)
qed


section \<open>Evaluating the composed payload\<close>

lemma String_js_1: "n < 10 \<Longrightarrow> String_js n = [digit_char n]"
  by (subst String_js.simps) simp

lemma String_js_step: "10 \<le> n \<Longrightarrow> String_js n = String_js (n div 10) @ [digit_char (n mod 10)]"
  by (subst String_js.simps) simp

lemma String_js_nonempty: "Suc 0 \<le> length (String_js n)"
  by (subst String_js.simps) simp

lemma String_js_length3: "100 \<le> n \<Longrightarrow> 3 \<le> length (String_js n)"
proof -
  assume n: "100 \<le> n"
  then have "10 \<le> n" "10 \<le> n div 10" by simp_all
  then show ?thesis
    using String_js_nonempty [of "n div 10 div 10"]
    by (simp add: String_js_step [of n] String_js_step [of "n div 10"])
qed

lemmas generatePixCode_hex =
  generatePixCode_def [unfolded Let_def hex4_digits [OF calculateCRC16_bound]]

lemma hex_of_bytes_zero:
  "hex_of_bytes [0, 0, 0, 0, 0, 0, 0, 0, 0, 0, 0, 0, 0, 0, 0, 0] = js ''00000000000000000000000000000000''"
  by (simp add: hex_of_bytes_def digit_char_def js_def)

lemma upper_digit_hex: "d < 16 \<Longrightarrow> upper_digit d \<in> set (js ''0123456789ABCDEF'')"
proof -
  assume "d < 16"
  then have "d = 0 \<or> d = 1 \<or> d = 2 \<or> d = 3 \<or> d = 4 \<or> d = 5 \<or> d = 6 \<or> d = 7 \<or> d = 8
      \<or> d = 9 \<or> d = 10 \<or> d = 11 \<or> d = 12 \<or> d = 13 \<or> d = 14 \<or> d = 15"
    by arith
  then show ?thesis
    by (elim disjE) (simp_all add: upper_digit_def js_def)
qed

lemma upper_hex4_chars: "n < 65536 \<Longrightarrow> set (upper_hex4 n) \<subseteq> set (js ''0123456789ABCDEF'')"
  by (simp add: upper_hex4_def upper_digit_hex)



lemma generatePixCode_suffix:
  "\<exists>n<65536. drop (length (generatePixCode numToString PIX_KEY rnd amount description) - 4)
       (generatePixCode numToString PIX_KEY rnd amount description) = upper_hex4 n"
proof -
  obtain p where
    "generatePixCode numToString PIX_KEY rnd amount description =
       p @ padStart 4 (digit_char 0) (toUpperCase (toString16 (calculateCRC16 p)))"
    using generatePixCode_shape by blast
  then have "drop (length (generatePixCode numToString PIX_KEY rnd amount description) - 4)
       (generatePixCode numToString PIX_KEY rnd amount description) = upper_hex4 (calculateCRC16 p)"
    by (simp add: hex4_digits calculateCRC16_bound upper_hex4_length)
  then show ?thesis using calculateCRC16_bound by blast
qed

lemma generatePixCode_suffix_chars:
  "length (drop (length (generatePixCode numToString PIX_KEY rnd amount description) - 4)
       (generatePixCode numToString PIX_KEY rnd amount description)) = 4 \<and>
   set (drop (length (generatePixCode numToString PIX_KEY rnd amount description) - 4)
       (generatePixCode numToString PIX_KEY rnd amount description)) \<subseteq> set (js ''0123456789ABCDEF'')"
proof -
  obtain n where "n < 65536"
    "drop (length (generatePixCode numToString PIX_KEY rnd amount description) - 4)
       (generatePixCode numToString PIX_KEY rnd amount description) = upper_hex4 n"
    using generatePixCode_suffix by blast
  then show ?thesis
    using upper_hex4_chars [of n] by (simp only: upper_hex4_length)
qed

lemma amount_field_100:
  "length a = 100 \<Longrightarrow>
   take 105 (drop 74 (generatePixCode numToString None rnd (Inl a) description)) = js ''54100'' @ a"
  by (simp add: generatePixCode_hex js_def padStart_def String_js_1 String_js_step digit_char_def)

lemma padStart_long: "n \<le> length s \<Longrightarrow> padStart n z s = s"
  by (simp add: padStart_def)

section \<open>The cache\<close>

lemma map_get_None_iff: "map_get m k = None \<longleftrightarrow> k \<notin> set (map fst m)"
  by (simp add: map_get_def map_of_eq_None_iff)

lemma map_delete_first:
  assumes "distinct (map fst m)"
  shows "map_delete m (map_first_key m) = tl m"
proof (cases m)
  case Nil
  then show ?thesis by (simp add: map_delete_def map_first_key_def)
next
  case (Cons e rest)
  then have "fst e \<notin> set (map fst rest)" using assms by simp
  then have "\<forall>x\<in>set rest. fst x \<noteq> fst e"
    by (fastforce simp add: image_iff)
  then have "filter (\<lambda>x. fst x \<noteq> fst e) rest = rest"
    by simp
  then show ?thesis using Cons by (simp add: map_delete_def map_first_key_def)
qed

lemma map_set_new: "map_get m k = None \<Longrightarrow> map_set m k v = m @ [(k, v)]"
  by (simp add: map_set_def map_get_def)

lemma generatePixQRCode_hit:
  "map_get (qrCodeCache s) k = Some v \<Longrightarrow> generatePixQRCode toDataURL k s = (Inr v, s)"
  by (simp add: generatePixQRCode_def)

lemma generatePixQRCode_fail:
  "map_get (qrCodeCache s) k = None \<Longrightarrow> toDataURL k (world s) = (Inl e, w') \<Longrightarrow>
   generatePixQRCode toDataURL k s = (Inl (Error (js ''Failed to generate QR code'')), s\<lparr>world := w'\<rparr>)"
  by (simp add: generatePixQRCode_def)

lemma generatePixQRCode_miss_keys:
  assumes "map_get (qrCodeCache s) k = None" and "toDataURL k (world s) = (Inr url, w')"
    and "distinct (map fst (qrCodeCache s))"
  shows "map fst (qrCodeCache (snd (generatePixQRCode toDataURL k s))) =
     (if 100 \<le> length (qrCodeCache s) then tl (map fst (qrCodeCache s)) else map fst (qrCodeCache s)) @ [k]"
proof -
  have n: "map_get (tl (qrCodeCache s)) k = None"
    using assms(1) by (cases "qrCodeCache s") (auto simp add: map_get_None_iff)
  show ?thesis
    using assms n
    by (simp add: generatePixQRCode_def Let_def map_size_def map_delete_first map_set_new map_tl)
qed

lemma render_all_keys:
  assumes "distinct (pre @ ks)"
    and "\<And>k w. k \<in> set ks \<Longrightarrow> \<exists>url w'. toDataURL k w = (Inr url, w')"
    and "map fst (qrCodeCache s) = drop (length pre - 100) pre"
  shows "map fst (qrCodeCache (render_all toDataURL ks s)) =
     drop (length (pre @ ks) - 100) (pre @ ks)"
  using assms
proof (induction ks arbitrary: pre s)
  case Nil
  then show ?case by simp
next
  case (Cons k ks)
  obtain url w' where r: "toDataURL k (world s) = (Inr url, w')"
    using Cons.prems(2) [of k "world s"] by auto
  have d: "distinct (map fst (qrCodeCache s))"
    using Cons.prems(1,3) by simp
  have "k \<notin> set pre" using Cons.prems(1) by simp
  then have "k \<notin> set (drop (length pre - 100) pre)"
    by (meson in_set_dropD)
  then have m: "map_get (qrCodeCache s) k = None"
    by (simp add: map_get_None_iff Cons.prems(3))
  let ?s' = "snd (generatePixQRCode toDataURL k s)"
  note mk = generatePixQRCode_miss_keys [where s = s and k = k and toDataURL = toDataURL, OF m r d]
  have keys: "map fst (qrCodeCache ?s') = drop (length (pre @ [k]) - 100) (pre @ [k])"
  proof (cases "100 \<le> length pre")
    case True
    then have "length (qrCodeCache s) = 100"
      using arg_cong [OF Cons.prems(3), of length] by simp
    moreover have "Suc (length pre - 100) = Suc (length pre) - 100"
      using True by simp
    then have "tl (drop (length pre - 100) pre) = drop (Suc (length pre) - 100) pre"
      using drop_Suc [of "length pre - 100" pre] by (simp only: tl_drop)
    ultimately show ?thesis
      using True by (simp add: mk Cons.prems(3))
  next
    case False
    then have "length (qrCodeCache s) < 100"
      using arg_cong [OF Cons.prems(3), of length] by simp
    then show ?thesis
      using False by (simp add: mk Cons.prems(3))
  qed
  have "map fst (qrCodeCache (render_all toDataURL ks ?s')) =
      drop (length ((pre @ [k]) @ ks) - 100) ((pre @ [k]) @ ks)"
  proof (rule Cons.IH)
    show "distinct ((pre @ [k]) @ ks)" using Cons.prems(1) by simp
    show "\<exists>url w'. toDataURL k' w = (Inr url, w')" if "k' \<in> set ks" for k' w
      using that Cons.prems(2) by simp
    show "map fst (qrCodeCache ?s') = drop (length (pre @ [k]) - 100) (pre @ [k])"
      by (rule keys)
  qed
  then show ?case by simp
qed

lemma render_all_append:
  "render_all toDataURL (a @ b) s = render_all toDataURL b (render_all toDataURL a s)"
  by (induction a arbitrary: s) simp_all

lemma render_all_hit_between:
  assumes "distinct ks" and "length ks = 101"
    and "\<forall>k w. k \<in> set ks \<longrightarrow> (\<exists>url w'. toDataURL k w = (Inr url, w'))"
  shows "map fst (qrCodeCache (render_all toDataURL (butlast ks @ [hd ks, last ks])
           \<lparr>qrCodeCache = [], world = w0\<rparr>)) = tl ks"
proof -
  let ?s0 = "\<lparr>qrCodeCache = [], world = w0\<rparr>"
  let ?s1 = "render_all toDataURL (butlast ks) ?s0"
  have ne: "ks \<noteq> []" using assms(2) by auto
  then have ks: "butlast ks @ [last ks] = ks" by simp
  have sub: "set (butlast ks) \<subseteq> set ks" by (meson in_set_butlastD subsetI)
  have "map fst (qrCodeCache ?s1) = drop (length ([] @ butlast ks) - 100) ([] @ butlast ks)"
  proof (rule render_all_keys)
    show "distinct ([] @ butlast ks)" using assms(1) by (simp add: distinct_butlast)
    show "\<exists>url w'. toDataURL k w = (Inr url, w')" if "k \<in> set (butlast ks)" for k w
      using that sub assms(3) by blast
    show "map fst (qrCodeCache ?s0) = drop (length [] - 100) []" by simp
  qed
  then have k1: "map fst (qrCodeCache ?s1) = butlast ks"
    using assms(2) by simp
  have "hd ks \<in> set (butlast ks)"
    using assms(2) by (cases ks) (auto simp add: butlast.simps split: if_splits)
  then have "map_get (qrCodeCache ?s1) (hd ks) \<noteq> None"
    by (simp add: map_get_None_iff k1)
  then obtain v where "map_get (qrCodeCache ?s1) (hd ks) = Some v" by blast
  then have hit: "snd (generatePixQRCode toDataURL (hd ks) ?s1) = ?s1"
    by (simp add: generatePixQRCode_hit)
  have "map fst (qrCodeCache (render_all toDataURL [last ks] ?s1)) =
      drop (length (butlast ks @ [last ks]) - 100) (butlast ks @ [last ks])"
  proof (rule render_all_keys)
    show "distinct (butlast ks @ [last ks])" using assms(1) ks by simp
    show "\<exists>url w'. toDataURL k w = (Inr url, w')" if "k \<in> set [last ks]" for k w
      using that ne assms(3) by (simp add: last_in_set)
    show "map fst (qrCodeCache ?s1) = drop (length (butlast ks) - 100) (butlast ks)"
      using k1 assms(2) by simp
  qed
  then have "map fst (qrCodeCache (render_all toDataURL [last ks] ?s1)) = tl ks"
    using assms(2) by (simp only: ks) (simp add: drop_Suc)
  moreover have "render_all toDataURL (butlast ks @ [hd ks, last ks]) ?s0
      = render_all toDataURL [last ks] ?s1"
    by (simp add: render_all_append hit)
  ultimately show ?thesis by simp
qed


lemma single_char_keys_distinct:
  "distinct (map (\<lambda>i. [of_nat i :: jschar]) [0..<101])"
proof -
  have "inj_on (\<lambda>i. [of_nat i :: jschar]) (set [0..<101])"
  proof (rule inj_onI)
    fix i j :: nat
    assume i: "i \<in> set [0..<101]" and j: "j \<in> set [0..<101]"
      and e: "[of_nat i :: jschar] = [of_nat j]"
    from e have "unat (of_nat i :: jschar) = unat (of_nat j :: jschar)" by simp
    moreover have "unat (of_nat i :: jschar) = i" using i by (intro unat_of_nat16) simp
    moreover have "unat (of_nat j :: jschar) = j" using j by (intro unat_of_nat16) simp
    ultimately show "i = j" by simp
  qed
  then show ?thesis by (simp add: distinct_map)
qed

section \<open>The claims\<close>

text \<open>
  C1. Round trip: for every amount (string or number), description, PIX key setting and
  every outcome of the random bytes, \<open>validatePixCode\<close> accepts what \<open>generatePixCode\<close>
  returns; the payload is a prefix that ends with the header \<open>6304\<close>, followed by the
  rendered checksum of that prefix.
\<close>

theorem C1_roundtrip:
  "validatePixCode (generatePixCode numToString PIX_KEY rnd amount description)
   \<and> (\<exists>q. generatePixCode numToString PIX_KEY rnd amount description =
         (q @ js ''6304'') @
         padStart 4 (digit_char 0) (toUpperCase (toString16 (calculateCRC16 (q @ js ''6304'')))))"
  using generatePixCode_valid generatePixCode_header by blast

text \<open>
  C2, as stated, fails: \<open>calculateCRC16\<close> reads only the low 8 bits of a code unit, so
  replacing \<open>A\<close> (\<open>0x41\<close>) by the character \<open>0x141\<close> in the valid payload \<open>AAAAAACE34\<close>
  leaves the checksum unchanged, and \<open>validatePixCode\<close> still accepts.
\<close>

theorem C2_counterexample:
  "drop (length (js ''AAAAAACE34'') - 4) (js ''AAAAAACE34'') =
     padStart 4 (digit_char 0) (toUpperCase (toString16
       (calculateCRC16 (take (length (js ''AAAAAACE34'') - 4) (js ''AAAAAACE34'')))))
   \<and> 0 < length (js ''AAAAAACE34'') - 4
   \<and> (0x141 :: jschar) \<noteq> js ''AAAAAACE34'' ! 0
   \<and> validatePixCode ((js ''AAAAAACE34'')[0 := 0x141])"
proof -
  have t: "take 6 (js ''AAAAAACE34'') = js ''AAAAAA''" "drop 6 (js ''AAAAAACE34'') = js ''CE34''"
    "length (js ''AAAAAACE34'') = 10" "js ''AAAAAACE34'' ! 0 = 0x41"
    "(js ''AAAAAACE34'')[0 := 0x141] = (0x141 # js ''AAAAA'') @ js ''CE34''"
    by (simp_all add: js_def)
  have l: "length (0x141 # js ''AAAAA'') = 6" by (simp add: js_def)
  have v: "validatePixCode ((0x141 # js ''AAAAA'') @ js ''CE34'')"
    using validate_append_crc [of "0x141 # js ''AAAAA''"] l
    by (simp only: hex4_digits calculateCRC16_bound crc_LAAAAA hex_CE34)
  have b: "drop (length (js ''AAAAAACE34'') - 4) (js ''AAAAAACE34'') =
     padStart 4 (digit_char 0) (toUpperCase (toString16
       (calculateCRC16 (take (length (js ''AAAAAACE34'') - 4) (js ''AAAAAACE34'')))))"
    by (simp add: t hex4_digits calculateCRC16_bound crc_AAAAAA hex_CE34)
  have c: "0 < length (js ''AAAAAACE34'') - 4" by (simp add: t)
  have d: "(0x141 :: jschar) \<noteq> js ''AAAAAACE34'' ! 0" by (simp add: t)
  from b c d v show ?thesis by (simp only: t simp_thms)
qed

text \<open>
  C2, amended. For a payload whose last four characters are the rendered checksum of the
  others, replacing one character of the prefix by a character that differs from it in
  the low 8 bits of its code unit, the suffix unchanged, makes \<open>validatePixCode\<close> return
  false.
\<close>

theorem C2_tamper_low_byte:
  assumes "4 \<le> length p"
    and "drop (length p - 4) p =
         padStart 4 (digit_char 0) (toUpperCase (toString16 (calculateCRC16 (take (length p - 4) p))))"
    and "i < length p - 4"
    and "(ucast c :: 8 word) \<noteq> ucast (p ! i)"
  shows "\<not> validatePixCode (p[i := c])"
proof
  assume v: "validatePixCode (p[i := c])"
  let ?n = "length p - 4"
  have t: "take ?n (p[i := c]) = (take ?n p)[i := c]"
    using assms(3) by (simp add: take_update_swap)
  have d: "drop ?n (p[i := c]) = drop ?n p"
    using assms(3) by simp
  have "upper_hex4 (calculateCRC16 ((take ?n p)[i := c])) = upper_hex4 (calculateCRC16 (take ?n p))"
    using v assms(2) by (simp add: validatePixCode_iff t d hex4_digits calculateCRC16_bound)
  then have "calculateCRC16 ((take ?n p)[i := c]) = calculateCRC16 (take ?n p)"
    using hex4_inj [of "calculateCRC16 ((take ?n p)[i := c])" "calculateCRC16 (take ?n p)"]
    by (simp add: hex4_digits calculateCRC16_bound)
  moreover have "calculateCRC16 ((take ?n p)[i := c]) \<noteq> calculateCRC16 (take ?n p)"
    using assms(3,4) by (intro calculateCRC16_update) simp_all
  ultimately show False by simp
qed

theorem C2_tamper_low_byte_witness:
  "\<not> validatePixCode ((js ''AAAAAACE34'')[0 := 0x42])"
proof -
  have t: "take 6 (js ''AAAAAACE34'') = js ''AAAAAA''" "drop 6 (js ''AAAAAACE34'') = js ''CE34''"
    "length (js ''AAAAAACE34'') = 10" "js ''AAAAAACE34'' ! 0 = 0x41"
    by (simp_all add: js_def)
  have a: "4 \<le> length (js ''AAAAAACE34'')" by (simp add: t)
  have b: "drop (length (js ''AAAAAACE34'') - 4) (js ''AAAAAACE34'') =
     padStart 4 (digit_char 0) (toUpperCase (toString16
       (calculateCRC16 (take (length (js ''AAAAAACE34'') - 4) (js ''AAAAAACE34'')))))"
    by (simp add: t hex4_digits calculateCRC16_bound crc_AAAAAA hex_CE34)
  have c: "0 < length (js ''AAAAAACE34'') - 4" by (simp add: t)
  have d: "(ucast (0x42 :: jschar) :: 8 word) \<noteq> ucast (js ''AAAAAACE34'' ! 0)"
    by (simp add: t)
  show ?thesis by (rule C2_tamper_low_byte [OF a b c d])
qed

text \<open>
  C3. The length field of the tag-26 template should be the length of its encoded
  sub-fields, the length of the PIX key plus 22. The source writes the length of the key
  plus 19: with the default key of 29 characters the field reads \<open>48\<close>, the sub-fields
  take 51 characters, and the next field, \<open>52\<close>, starts 51 characters after the length
  field.
\<close>

theorem C3_template_length_default_key:
  "take 4 (drop 8 (generatePixCode numToString None rnd amount description)) = js ''2648'' \<and>
   take 51 (drop 12 (generatePixCode numToString None rnd amount description)) =
     js ''0014br.gov.bcb.pix0129contato@deltasilkprint.com.br'' \<and>
   take 2 (drop 63 (generatePixCode numToString None rnd amount description)) = js ''52''"
  by (simp add: generatePixCode_hex Let_def js_def padStart_def String_js_1 String_js_step digit_char_def)

text \<open>
  C4, as stated, fails: with amount \<open>10.00\<close>, key \<open>test@example.com\<close> and sixteen zero
  bytes as the random outcome, the payload contains neither \<open>5303986\<close> nor \<open>5402\<close>
  followed by \<open>10.00\<close>.
\<close>

theorem C4_counterexample:
  "\<not> sublist (js ''5303986'')
       (generatePixCode (\<lambda>n :: unit. []) (Some (js ''test@example.com''))
          [0, 0, 0, 0, 0, 0, 0, 0, 0, 0, 0, 0, 0, 0, 0, 0] (Inl (js ''10.00'')) [])
   \<and> \<not> sublist (js ''540210.00'')
       (generatePixCode (\<lambda>n :: unit. []) (Some (js ''test@example.com''))
          [0, 0, 0, 0, 0, 0, 0, 0, 0, 0, 0, 0, 0, 0, 0, 0] (Inl (js ''10.00'')) [])"
  by (simp add: generatePixCode_hex Let_def hex_of_bytes_zero substring_def upper_hex4_def
      js_def padStart_def String_js_1 String_js_step digit_char_def sublist_code(3))

text \<open>
  C4, amended. With amount \<open>10.00\<close> and key \<open>test@example.com\<close>, for every outcome of the
  random bytes the payload starts with \<open>000201\<close>, contains \<open>5405\<close> immediately followed
  by \<open>10.00\<close>, and ends with four uppercase hexadecimal characters that
  \<open>validatePixCode\<close> confirms.
\<close>

theorem C4_vector:
  "prefix (js ''000201'')
     (generatePixCode numToString (Some (js ''test@example.com'')) rnd (Inl (js ''10.00'')) description)
   \<and> sublist (js ''540510.00'')
     (generatePixCode numToString (Some (js ''test@example.com'')) rnd (Inl (js ''10.00'')) description)
   \<and> length (drop (length (generatePixCode numToString (Some (js ''test@example.com'')) rnd
                 (Inl (js ''10.00'')) description) - 4)
         (generatePixCode numToString (Some (js ''test@example.com'')) rnd (Inl (js ''10.00'')) description)) = 4
   \<and> set (drop (length (generatePixCode numToString (Some (js ''test@example.com'')) rnd
                 (Inl (js ''10.00'')) description) - 4)
         (generatePixCode numToString (Some (js ''test@example.com'')) rnd (Inl (js ''10.00'')) description))
       \<subseteq> set (js ''0123456789ABCDEF'')
   \<and> validatePixCode
     (generatePixCode numToString (Some (js ''test@example.com'')) rnd (Inl (js ''10.00'')) description)"
proof -
  have a: "prefix (js ''000201'')
     (generatePixCode numToString (Some (js ''test@example.com'')) rnd (Inl (js ''10.00'')) description)
   \<and> sublist (js ''540510.00'')
     (generatePixCode numToString (Some (js ''test@example.com'')) rnd (Inl (js ''10.00'')) description)"
    by (simp add: generatePixCode_hex Let_def
        js_def padStart_def String_js_1 String_js_step digit_char_def sublist_code(3))
  show ?thesis
    using a generatePixCode_suffix_chars generatePixCode_valid by blast
qed

text \<open>
  C5, as stated, fails: for an amount of 100 characters \<open>generatePixCode\<close> returns a
  payload, and its amount field is \<open>54\<close>, the three-digit length \<open>100\<close>, and the amount.
\<close>

theorem C5_counterexample:
  "length (replicate 100 (0x31 :: jschar)) = 100 \<and>
   take 105 (drop 74 (generatePixCode (\<lambda>n :: unit. []) None
       [0, 0, 0, 0, 0, 0, 0, 0, 0, 0, 0, 0, 0, 0, 0, 0] (Inl (replicate 100 0x31)) []))
     = js ''54100'' @ replicate 100 0x31"
  using amount_field_100 [of "replicate 100 0x31"] by simp

text \<open>
  C5, amended. \<open>generatePixCode\<close> has no length guard and does not reject: for an amount
  whose string has 100 or more characters it returns a payload that contains \<open>54\<close>, the
  unpadded decimal length (three or more digits) and the amount, not truncated, and
  \<open>validatePixCode\<close> accepts that payload.
\<close>

theorem C5_no_guard:
  assumes "100 \<le> length (case amount of Inl s \<Rightarrow> s | Inr n \<Rightarrow> numToString n)"
  shows "sublist (js ''54'' @ String_js (length (case amount of Inl s \<Rightarrow> s | Inr n \<Rightarrow> numToString n))
                  @ (case amount of Inl s \<Rightarrow> s | Inr n \<Rightarrow> numToString n))
           (generatePixCode numToString PIX_KEY rnd amount description)
       \<and> 3 \<le> length (String_js (length (case amount of Inl s \<Rightarrow> s | Inr n \<Rightarrow> numToString n)))
       \<and> validatePixCode (generatePixCode numToString PIX_KEY rnd amount description)"
proof -
  define a where "a = (case amount of Inl s \<Rightarrow> s | Inr n \<Rightarrow> numToString n)"
  have l: "3 \<le> length (String_js (length a))"
    using assms by (simp add: a_def String_js_length3)
  then have pad: "padStart 2 (digit_char 0) (String_js (length a)) = String_js (length a)"
    by (simp add: padStart_long)
  have "\<exists>A B. generatePixCode numToString PIX_KEY rnd amount description =
          A @ (js ''54'' @ String_js (length a) @ a) @ B"
    unfolding generatePixCode_def Let_def a_def [symmetric] pad
    apply (rule exI [of _ "concat [js ''00'', js ''02'', js ''01'', js ''12'', js ''26'', _, js ''0014'',
        js ''br.gov.bcb.pix'', js ''01'', _, _, js ''52'', js ''0000'', js ''53'', js ''986'']"])
    apply (rule exI)
    apply (simp only: concat.simps append_assoc append_Nil2 append_Nil)
    done
  then have "sublist (js ''54'' @ String_js (length a) @ a)
      (generatePixCode numToString PIX_KEY rnd amount description)"
    by (auto simp only: sublist_def)
  with l show ?thesis
    unfolding a_def using generatePixCode_valid by blast
qed

theorem C5_no_guard_witness:
  "100 \<le> length (replicate 100 (0x31 :: jschar))
   \<and> sublist (js ''54'' @ String_js (length (replicate 100 (0x31 :: jschar))) @ replicate 100 0x31)
        (generatePixCode (\<lambda>n :: unit. []) None [0, 0, 0, 0, 0, 0, 0, 0, 0, 0, 0, 0, 0, 0, 0, 0]
           (Inl (replicate 100 0x31)) [])
   \<and> validatePixCode
        (generatePixCode (\<lambda>n :: unit. []) None [0, 0, 0, 0, 0, 0, 0, 0, 0, 0, 0, 0, 0, 0, 0, 0]
           (Inl (replicate 100 0x31)) [])"
proof -
  have h: "100 \<le> length (case (Inl (replicate 100 0x31) :: jsstring + unit) of
                Inl s \<Rightarrow> s | Inr n \<Rightarrow> (\<lambda>n :: unit. []) n)"
    by simp
  show ?thesis
    using C5_no_guard [OF h, of None "[0, 0, 0, 0, 0, 0, 0, 0, 0, 0, 0, 0, 0, 0, 0, 0]" "[]"]
    by (simp only: sum.case length_replicate simp_thms)
qed

text \<open>
  C6. For every character sequence, the empty one included, \<open>calculateCRC16\<close> returns a
  value in \<open>[0, 0xFFFF]\<close> that is the CRC-16/CCITT-FALSE of the specification: the unmasked
  32-bit loop with one final mask computes what the 16-bit register computes, each
  character cut to 8 bits.
\<close>

theorem C6_crc_reference:
  "calculateCRC16 data \<le> 0xFFFF \<and> calculateCRC16 data = crc16_ccitt_false data"
  using calculateCRC16_bound [of data]
  by (simp add: calculateCRC16_low16 crc16_ccitt_false_def)

text \<open>
  C7. \<open>validatePixCode\<close> returns a boolean for every candidate: it is true exactly when the
  candidate has at least 10 characters and its last four are the checksum of the others;
  a candidate of fewer than 10 characters is rejected whatever it contains.
\<close>

theorem C7_validator_total:
  "(validatePixCode c \<longleftrightarrow>
      10 \<le> length c \<and>
      drop (length c - 4) c =
        padStart 4 (digit_char 0) (toUpperCase (toString16 (calculateCRC16 (take (length c - 4) c)))))
   \<and> (length c < 10 \<longrightarrow> validatePixCode c = False)"
  by (simp add: validatePixCode_iff hex4_digits calculateCRC16_bound)

theorem C7_validator_total_witness:
  "length (js ''FFFF'') < 10 \<and> validatePixCode (js ''FFFF'') = False"
  using C7_validator_total [of "js ''FFFF''"] by (simp add: js_def)

text \<open>
  C8. From an empty cache, rendering 101 distinct payloads one after the other, each
  render succeeding, leaves exactly the last 100 in the cache, in their order: the first
  payload is gone, so that a lookup for it misses, and every other is present. A hit
  returns the cached value and leaves the cache, with its order, as it was: when the
  first payload is requested again before the last one is rendered, it is still the
  first payload that is evicted.
\<close>

theorem C8_fifo:
  assumes "distinct ks" and "length ks = 101"
    and "\<forall>k w. k \<in> set ks \<longrightarrow> (\<exists>url w'. toDataURL k w = (Inr url, w'))"
  shows "map fst (qrCodeCache (render_all toDataURL ks \<lparr>qrCodeCache = [], world = w0\<rparr>)) = tl ks
     \<and> map_get (qrCodeCache (render_all toDataURL ks \<lparr>qrCodeCache = [], world = w0\<rparr>)) (hd ks) = None
     \<and> (\<forall>k \<in> set (tl ks).
           map_get (qrCodeCache (render_all toDataURL ks \<lparr>qrCodeCache = [], world = w0\<rparr>)) k \<noteq> None)
     \<and> (\<forall>s k v. map_get (qrCodeCache s) k = Some v \<longrightarrow>
           generatePixQRCode toDataURL k s = (Inr v, s))
     \<and> map fst (qrCodeCache (render_all toDataURL (butlast ks @ [hd ks, last ks])
           \<lparr>qrCodeCache = [], world = w0\<rparr>)) = tl ks"
proof -
  let ?c = "qrCodeCache (render_all toDataURL ks \<lparr>qrCodeCache = [], world = w0\<rparr>)"
  have "map fst ?c = drop (length ([] @ ks) - 100) ([] @ ks)"
    using assms by (intro render_all_keys) simp_all
  then have k: "map fst ?c = tl ks"
    using assms(2) by (simp add: drop_Suc)
  have "ks = hd ks # tl ks" using assms(2) by (cases ks) simp_all
  then have "hd ks \<notin> set (tl ks)" using assms(1) by (metis distinct.simps(2))
  then have h: "map_get ?c (hd ks) = None" by (simp add: map_get_None_iff k)
  have t: "\<forall>k \<in> set (tl ks). map_get ?c k \<noteq> None"
    by (simp add: map_get_None_iff k)
  have b: "map fst (qrCodeCache (render_all toDataURL (butlast ks @ [hd ks, last ks])
           \<lparr>qrCodeCache = [], world = w0\<rparr>)) = tl ks"
    using assms by (rule render_all_hit_between)
  show ?thesis using k h t b generatePixQRCode_hit by blast
qed

theorem C8_fifo_witness:
  "distinct (map (\<lambda>i. [of_nat i :: jschar]) [0..<101])
   \<and> length (map (\<lambda>i. [of_nat i :: jschar]) [0..<101]) = 101
   \<and> map fst (qrCodeCache (render_all (\<lambda>k w. (Inr k, w)) (map (\<lambda>i. [of_nat i :: jschar]) [0..<101])
        \<lparr>qrCodeCache = [], world = ()\<rparr>)) = tl (map (\<lambda>i. [of_nat i :: jschar]) [0..<101])
   \<and> map_get (qrCodeCache (render_all (\<lambda>k w. (Inr k, w)) (map (\<lambda>i. [of_nat i :: jschar]) [0..<101])
        \<lparr>qrCodeCache = [], world = ()\<rparr>)) (hd (map (\<lambda>i. [of_nat i :: jschar]) [0..<101])) = None
   \<and> generatePixQRCode (\<lambda>k w. (Inr k, w)) (js ''a'') \<lparr>qrCodeCache = [(js ''a'', js ''b'')], world = ()\<rparr>
       = (Inr (js ''b''), \<lparr>qrCodeCache = [(js ''a'', js ''b'')], world = ()\<rparr>)"
proof -
  let ?ks = "map (\<lambda>i. [of_nat i :: jschar]) [0..<101]"
  let ?s = "\<lparr>qrCodeCache = [(js ''a'', js ''b'')], world = ()\<rparr>"
  have l: "length ?ks = 101" by simp
  have r: "\<forall>k w. k \<in> set ?ks \<longrightarrow> (\<exists>url w'. (\<lambda>k (w :: unit). (Inr k :: js_error + jsstring, w)) k w = (Inr url, w'))"
    by simp
  have g: "map_get (qrCodeCache ?s) (js ''a'') = Some (js ''b'')"
    by (simp add: map_get_def)
  show ?thesis
    using C8_fifo [OF single_char_keys_distinct l r, of "()"] single_char_keys_distinct l g
    by blast
qed

text \<open>
  C9. When the payload is not cached and the renderer fails, \<open>generatePixQRCode\<close> returns
  an error and the cache is unchanged; the next call with the same payload runs the
  renderer again, and returns what the renderer then returns.
\<close>

theorem C9_render_failure:
  assumes "map_get (qrCodeCache s) pixCode = None"
    and "toDataURL pixCode (world s) = (Inl e, w')"
  shows "generatePixQRCode toDataURL pixCode s =
           (Inl (Error (js ''Failed to generate QR code'')), s\<lparr>world := w'\<rparr>)
     \<and> qrCodeCache (snd (generatePixQRCode toDataURL pixCode s)) = qrCodeCache s
     \<and> world (snd (generatePixQRCode toDataURL pixCode (s\<lparr>world := w'\<rparr>))) = snd (toDataURL pixCode w')
     \<and> fst (generatePixQRCode toDataURL pixCode (s\<lparr>world := w'\<rparr>)) =
         (case fst (toDataURL pixCode w') of
            Inl e' \<Rightarrow> Inl (Error (js ''Failed to generate QR code''))
          | Inr url \<Rightarrow> Inr url)"
proof -
  have a: "generatePixQRCode toDataURL pixCode s =
           (Inl (Error (js ''Failed to generate QR code'')), s\<lparr>world := w'\<rparr>)"
    using assms by (rule generatePixQRCode_fail)
  have b: "world (snd (generatePixQRCode toDataURL pixCode (s\<lparr>world := w'\<rparr>))) = snd (toDataURL pixCode w')"
    using assms(1)
    by (cases "toDataURL pixCode w'")
       (auto simp add: generatePixQRCode_def Let_def split: sum.splits)
  have c: "fst (generatePixQRCode toDataURL pixCode (s\<lparr>world := w'\<rparr>)) =
         (case fst (toDataURL pixCode w') of
            Inl e' \<Rightarrow> Inl (Error (js ''Failed to generate QR code''))
          | Inr url \<Rightarrow> Inr url)"
    using assms(1)
    by (cases "toDataURL pixCode w'")
       (auto simp add: generatePixQRCode_def Let_def split: sum.splits)
  show ?thesis using a b c by simp
qed

theorem C9_render_failure_witness:
  "generatePixQRCode (\<lambda>k n. (if n = 0 then Inl (Error (js ''no'')) else Inr (js ''data:image/png''), Suc n))
      (js ''PIAK1ZFFFF'') \<lparr>qrCodeCache = [], world = 0 :: nat\<rparr>
     = (Inl (Error (js ''Failed to generate QR code'')), \<lparr>qrCodeCache = [], world = 1\<rparr>)
   \<and> generatePixQRCode (\<lambda>k n. (if n = 0 then Inl (Error (js ''no'')) else Inr (js ''data:image/png''), Suc n))
      (js ''PIAK1ZFFFF'') \<lparr>qrCodeCache = [], world = 1 :: nat\<rparr>
     = (Inr (js ''data:image/png''),
        \<lparr>qrCodeCache = [(js ''PIAK1ZFFFF'', js ''data:image/png'')], world = 2\<rparr>)"
proof -
  let ?f = "\<lambda>(k :: jsstring) n. (if n = 0 then Inl (Error (js ''no'')) else Inr (js ''data:image/png''), Suc n)"
  let ?s = "\<lparr>qrCodeCache = [], world = 0 :: nat\<rparr>"
  have h1: "map_get (qrCodeCache ?s) (js ''PIAK1ZFFFF'') = None"
    by (simp add: map_get_def)
  have h2: "?f (js ''PIAK1ZFFFF'') (world ?s) = (Inl (Error (js ''no'')), 1)"
    by simp
  have second: "generatePixQRCode ?f (js ''PIAK1ZFFFF'') \<lparr>qrCodeCache = [], world = 1 :: nat\<rparr>
     = (Inr (js ''data:image/png''),
        \<lparr>qrCodeCache = [(js ''PIAK1ZFFFF'', js ''data:image/png'')], world = 2\<rparr>)"
    by (simp add: generatePixQRCode_def map_get_def map_size_def map_set_def Let_def)
  show ?thesis
    using C9_render_failure [where toDataURL = ?f and s = ?s and pixCode = "js ''PIAK1ZFFFF''"
        and e = "Error (js ''no'')" and w' = 1] h1 h2 second
    by simp
qed

text \<open>
  C10. The checksum of the empty string is the initial register \<open>0xFFFF\<close>, and every
  candidate of 10 or more characters that ends in \<open>FFFF\<close> and whose prefix has the
  checksum \<open>0xFFFF\<close> is accepted.
\<close>

theorem C10_empty_checksum:
  "calculateCRC16 [] = 0xFFFF \<and>
   (\<forall>p. 6 \<le> length p \<and> calculateCRC16 p = 0xFFFF \<longrightarrow> validatePixCode (p @ js ''FFFF''))"
proof -
  have e: "calculateCRC16 [] = 0xFFFF"
    by (simp add: calculateCRC16_def)
  have f: "upper_hex4 65535 = js ''FFFF''"
    by (simp add: upper_hex4_def upper_digit_def js_def)
  have "validatePixCode (p @ js ''FFFF'')" if "6 \<le> length p" "calculateCRC16 p = 0xFFFF" for p
    using that validate_append_crc [of p] by (simp add: hex4_digits f)
  with e show ?thesis by blast
qed

theorem C10_empty_checksum_witness:
  "6 \<le> length (js ''PIAK1Z'') \<and> calculateCRC16 (js ''PIAK1Z'') = 0xFFFF
   \<and> validatePixCode (js ''PIAK1ZFFFF'')"
proof -
  have c: "calculateCRC16 (js ''PIAK1Z'') = 0xFFFF"
    by (simp add: calculateCRC16_def js_def crc_bits_8)
  have l: "6 \<le> length (js ''PIAK1Z'')"
    by (simp add: js_def)
  have "js ''PIAK1Z'' @ js ''FFFF'' = js ''PIAK1ZFFFF''"
    by (simp add: js_def)
  then show ?thesis using C10_empty_checksum c l by metis
qed

end
